theory Spec2Isabelle
  imports
    Main
    "HOL-Library.Char_ord"
    "HOL-Library.List_Lexorder"
    "HOL-Library.Product_Lexorder"
    "HOL-Library.Multiset"
begin

section \<open>diskSpace.py: a shallow embedding\<close>

text \<open>
  The development follows \<^verbatim>\<open>src/diskSpace.py\<close> function by function. Python values are
  modelled as follows.

  \<^item> \<^verbatim>\<open>int\<close> is \<^typ>\<open>int\<close> (unbounded).
  \<^item> \<^verbatim>\<open>str\<close> is \<^typ>\<open>string\<close>, one \<^typ>\<open>char\<close> per code point. The model covers the
    strings whose code points are below 256 (ASCII and the Latin-1 supplement); the character
    tables below (\<^verbatim>\<open>isspace\<close>, \<^verbatim>\<open>isdigit\<close>, \<^verbatim>\<open>lower\<close>) are CPython's tables on that range.
    Strings compare lexicographically by code point, as \<^verbatim>\<open>str.__lt__\<close> does.
  \<^item> A tuple is a product; tuples compare lexicographically, as Python's do.
  \<^item> An exception is the left summand of a result \<open>py_error + 'a\<close>.
\<close>

datatype py_error = IndexError | ValueError

subsection \<open>String methods used by the program\<close>

text \<open>The code points below 256 for which \<^verbatim>\<open>str.isspace()\<close> holds; \<^verbatim>\<open>str.strip()\<close> removes
  exactly these: TAB, LF, VT, FF, CR, FS, GS, RS, US, SPACE, NEL (0x85), NBSP (0xA0).\<close>

definition py_isspace :: "char \<Rightarrow> bool" where
  "py_isspace c = List.member [9, 10, 11, 12, 13, 28, 29, 30, 31, 32, 133, 160 :: nat] (of_char c)"

text \<open>\<^verbatim>\<open>s.strip()\<close>\<close>

definition strip :: "string \<Rightarrow> string" where
  "strip s = rev (dropWhile py_isspace (rev (dropWhile py_isspace s)))"

text \<open>\<^verbatim>\<open>s.lower()\<close>: below 256 the upper-case letters are A-Z, and 0xC0-0xDE without the
  multiplication sign 0xD7; each maps to the code point 32 above it.\<close>

definition lower_char :: "char \<Rightarrow> char" where
  "lower_char c =
     (let k = of_char c :: nat
      in if (65 \<le> k \<and> k \<le> 90) \<or> (192 \<le> k \<and> k \<le> 222 \<and> k \<noteq> 215)
         then char_of (k + 32) else c)"

definition lower :: "string \<Rightarrow> string" where
  "lower s = map lower_char s"

text \<open>\<^verbatim>\<open>s.replace(old, new)\<close>: every non-overlapping occurrence of \<open>old\<close>, scanning from the
  left. (For an empty \<open>old\<close> Python puts \<open>new\<close> before every character and at the end.)\<close>

function replace :: "string \<Rightarrow> string \<Rightarrow> string \<Rightarrow> string" where
  "replace old new s =
     (if old = [] then new @ concat (map (\<lambda>c. c # new) s)
      else if s = [] then []
      else if take (length old) s = old then new @ replace old new (drop (length old) s)
      else hd s # replace old new (tl s))"
  by pat_completeness auto
termination
  by (relation "measure (\<lambda>(old, new, s). length s)") auto

declare replace.simps [simp del]

text \<open>\<^verbatim>\<open>s.split(sep)\<close> for a separator of one character (the program splits on \<^verbatim>\<open>','\<close> and
  \<^verbatim>\<open>'-'\<close>): the pieces between the separators, empty pieces included.\<close>

fun split_from :: "char \<Rightarrow> string \<Rightarrow> string \<Rightarrow> string list" where
  "split_from sep cur [] = [cur]"
| "split_from sep cur (c # cs) =
     (if c = sep then cur # split_from sep [] cs else split_from sep (cur @ [c]) cs)"

definition split :: "char \<Rightarrow> string \<Rightarrow> string list" where
  "split sep s = split_from sep [] s"

text \<open>\<^verbatim>\<open>s.isdigit()\<close>: the string is not empty and every character is a digit. Below 256
  the digits are 0-9 and the superscript digits 0xB2, 0xB3 and 0xB9, which are digits
  (\<^verbatim>\<open>Numeric_Type=Digit\<close>) without being decimal characters.\<close>

definition is_decimal_char :: "char \<Rightarrow> bool" where
  "is_decimal_char c = (48 \<le> (of_char c :: nat) \<and> (of_char c :: nat) \<le> 57)"

definition superscript_digit :: "char \<Rightarrow> bool" where
  "superscript_digit c = List.member [178, 179, 185 :: nat] (of_char c)"

definition isdigit_char :: "char \<Rightarrow> bool" where
  "isdigit_char c = (is_decimal_char c \<or> superscript_digit c)"

definition isdigit :: "string \<Rightarrow> bool" where
  "isdigit s = (s \<noteq> [] \<and> list_all isdigit_char s)"

text \<open>\<^verbatim>\<open>int(s)\<close> on a string that passed \<^verbatim>\<open>isdigit()\<close>: the value in base 10 when every
  character is a decimal character, and \<^verbatim>\<open>ValueError\<close> otherwise (\<^verbatim>\<open>int\<close> accepts decimal
  characters only). The interpreter's optional limit on the number of digits
  (\<^verbatim>\<open>sys.set_int_max_str_digits\<close>) is taken to be switched off.\<close>

definition digit_val :: "char \<Rightarrow> int" where
  "digit_val c = int (of_char c) - 48"

definition decimal :: "string \<Rightarrow> int" where
  "decimal s = foldl (\<lambda>acc c. 10 * acc + digit_val c) 0 s"

definition py_int :: "string \<Rightarrow> py_error + int" where
  "py_int s = (if s \<noteq> [] \<and> list_all is_decimal_char s then Inr (decimal s) else Inl ValueError)"

subsection \<open>Selection parsing\<close>

text \<open>\<^verbatim>\<open>list(range(1, max_idx + 1))\<close>\<close>

definition all_indices :: "int \<Rightarrow> int list" where
  "all_indices max_idx = [1..max_idx]"

text \<open>The loop \<^verbatim>\<open>for i in range(a, b + 1): if 1 <= i <= max_idx: chosen.add(i)\<close>.\<close>

definition add_range :: "int \<Rightarrow> int \<Rightarrow> int \<Rightarrow> int set \<Rightarrow> int set" where
  "add_range max_idx a b chosen =
     fold (\<lambda>i ch. if 1 \<le> i \<and> i \<le> max_idx then insert i ch else ch) [a..b] chosen"

text \<open>The body of the token loop for a token other than \<^verbatim>\<open>'all'\<close> (lines 181-196): the new
  value of \<open>chosen\<close>, or the exception that leaves the function.\<close>

definition single_number :: "int \<Rightarrow> string \<Rightarrow> int set \<Rightarrow> py_error + int set" where
  "single_number max_idx token chosen =
     (if isdigit token then
        (case py_int token of
           Inl e \<Rightarrow> Inl e
         | Inr i \<Rightarrow> Inr (if 1 \<le> i \<and> i \<le> max_idx then insert i chosen else chosen))
      else Inr chosen)"

definition token_step :: "int \<Rightarrow> string \<Rightarrow> int set \<Rightarrow> py_error + int set" where
  "token_step max_idx token chosen =
     (if List.member token (CHR ''-'') then
        (let parts = filter (\<lambda>p. p \<noteq> []) (map strip (split (CHR ''-'') token))
         in if length parts = 2 \<and> isdigit (parts ! 0) \<and> isdigit (parts ! 1) then
              (case py_int (parts ! 0) of
                 Inl e \<Rightarrow> Inl e
               | Inr a0 \<Rightarrow>
                  (case py_int (parts ! 1) of
                     Inl e \<Rightarrow> Inl e
                   | Inr b0 \<Rightarrow>
                      (let a = (if a0 > b0 then b0 else a0);
                           b = (if a0 > b0 then a0 else b0)
                       in Inr (add_range max_idx a b chosen))))
            else single_number max_idx token chosen)
      else single_number max_idx token chosen)"

text \<open>The token loop (lines 178-197), with its early return on the token \<^verbatim>\<open>'all'\<close> and the
  final \<^verbatim>\<open>sorted(chosen)\<close>.\<close>

fun token_loop :: "int \<Rightarrow> string list \<Rightarrow> int set \<Rightarrow> py_error + int list" where
  "token_loop max_idx [] chosen = Inr (sorted_list_of_set chosen)"
| "token_loop max_idx (token # rest) chosen =
     (if token = ''all'' then Inr (all_indices max_idx)
      else (case token_step max_idx token chosen of
              Inl e \<Rightarrow> Inl e
            | Inr chosen' \<Rightarrow> token_loop max_idx rest chosen'))"

definition tokens_of :: "string \<Rightarrow> string list" where
  "tokens_of norm = filter (\<lambda>t. t \<noteq> []) (map strip (split (CHR '','') norm))"

definition parse_selection :: "string \<Rightarrow> int \<Rightarrow> py_error + int list" where
  "parse_selection s0 max_idx =
     (if s0 = [] then Inr []
      else
        (let s = lower (strip s0)
         in if s = ''all'' then Inr (all_indices max_idx)
            else
              (let norm = replace '';'' '','' s;
                   norm = replace '' - '' ''-'' norm
               in token_loop max_idx (tokens_of norm) {})))"

subsection \<open>The standard library's heap queue\<close>

text \<open>
  \<^verbatim>\<open>heapq\<close> keeps a binary min-heap in a list: \<open>heap[k] \<le> heap[2k+1]\<close> and
  \<open>heap[k] \<le> heap[2k+2]\<close>. The two operations the program uses are transcribed from the
  library's reference implementation \<^verbatim>\<open>heapq.py\<close>.

  \<^verbatim>\<open>_siftdown(heap, startpos, pos)\<close>: the item at \<open>pos\<close> moves towards the root while its
  parent is greater; parents are moved down into the hole.
\<close>

function siftdown_loop :: "'a::linorder list \<Rightarrow> nat \<Rightarrow> 'a \<Rightarrow> nat \<Rightarrow> 'a list" where
  "siftdown_loop heap startpos newitem pos =
     (if pos > startpos then
        (let parentpos = (pos - 1) div 2;
             parent = heap ! parentpos
         in if newitem < parent
            then siftdown_loop (heap[pos := parent]) startpos newitem parentpos
            else heap[pos := newitem])
      else heap[pos := newitem])"
  by pat_completeness auto
termination
  by (relation "measure (\<lambda>(heap, startpos, newitem, pos). pos)") auto

declare siftdown_loop.simps [simp del]

definition siftdown :: "'a::linorder list \<Rightarrow> nat \<Rightarrow> nat \<Rightarrow> 'a list" where
  "siftdown heap startpos pos = siftdown_loop heap startpos (heap ! pos) pos"

text \<open>\<^verbatim>\<open>_siftup(heap, pos)\<close>: the smaller child is moved up until a leaf is reached; the
  item is put there and sifted back towards \<open>pos\<close>. The loop returns the list and the
  position of the leaf.\<close>

function siftup_loop :: "'a::linorder list \<Rightarrow> nat \<Rightarrow> 'a list \<times> nat" where
  "siftup_loop heap pos =
     (let endpos = length heap;
          childpos = 2 * pos + 1
      in if childpos < endpos then
           (let rightpos = childpos + 1;
                childpos = (if rightpos < endpos \<and> \<not> heap ! childpos < heap ! rightpos
                            then rightpos else childpos)
            in siftup_loop (heap[pos := heap ! childpos]) childpos)
         else (heap, pos))"
  by pat_completeness auto
termination
  by (relation "measure (\<lambda>(heap, pos). length heap - pos)") (auto simp: Let_def)

declare siftup_loop.simps [simp del]

definition siftup :: "'a::linorder list \<Rightarrow> nat \<Rightarrow> 'a list" where
  "siftup heap pos =
     (let newitem = heap ! pos;
          (heap', leaf) = siftup_loop heap pos
      in siftdown (heap'[leaf := newitem]) pos leaf)"

text \<open>\<^verbatim>\<open>heappush(heap, item)\<close>\<close>

definition heappush :: "'a::linorder list \<Rightarrow> 'a \<Rightarrow> 'a list" where
  "heappush heap item = siftdown (heap @ [item]) 0 (length heap)"

text \<open>\<^verbatim>\<open>heapreplace(heap, item)\<close>; \<open>heap[0]\<close> raises \<^verbatim>\<open>IndexError\<close> on an empty heap.\<close>

definition heapreplace :: "'a::linorder list \<Rightarrow> 'a \<Rightarrow> py_error + 'a list" where
  "heapreplace heap item = (if heap = [] then Inl IndexError else Inr (siftup (heap[0 := item]) 0))"

subsection \<open>The file system\<close>

text \<open>
  A directory tree as the traversal sees it. Each entry records the results of the system
  calls the program makes on it; \<open>None\<close> stands for a call that raises.

  \<^item> \<open>File name lstat getsize\<close>: an entry that is not a directory, with the result
    \<open>(st_size, st_mtime)\<close> of \<^verbatim>\<open>os.stat(path, follow_symlinks=False)\<close> and the result of
    \<^verbatim>\<open>os.path.getsize(path)\<close>.
  \<^item> \<open>Dir name mtime listing\<close>: a directory, with \<open>st_mtime\<close> of the entry's own
    \<^verbatim>\<open>stat(follow_symlinks=False)\<close> and its listing (\<open>None\<close>: the directory cannot be
    opened).
  \<^item> \<open>DirLink name\<close>: a symbolic link to a directory. \<^verbatim>\<open>os.walk\<close> lists it as a directory
    and, with \<^verbatim>\<open>followlinks=False\<close>, does not descend into it;
    \<^verbatim>\<open>is_dir(follow_symlinks=False)\<close> is false for it.

  Time stamps are only compared, so they are values of any linear order \<open>'t\<close>.
\<close>

datatype 't fs_entry =
    File string "(int \<times> 't) option" "int option"
  | Dir string "'t option" "'t fs_entry list option"
  | DirLink string

text \<open>A root: the path given to the scan, and its listing (\<open>None\<close>: it cannot be opened).\<close>

type_synonym 't root = "string \<times> 't fs_entry list option"

text \<open>\<^verbatim>\<open>os.path.join(a, b)\<close> (POSIX)\<close>

definition join :: "string \<Rightarrow> string \<Rightarrow> string" where
  "join a b =
     (if take 1 b = ''/'' then b
      else if a = [] \<or> last a = CHR ''/'' then a @ b
      else a @ ''/'' @ b)"

fun is_dir_entry :: "'t fs_entry \<Rightarrow> bool" where
  "is_dir_entry (File _ _ _) = False"
| "is_dir_entry (Dir _ _ _) = True"
| "is_dir_entry (DirLink _) = True"

text \<open>\<^verbatim>\<open>os.walk(top, onerror=lambda e: None)\<close>, top-down: for every directory that can be
  listed, the triple of its path, its directory entries and its other entries, then the
  walks of its subdirectories in the order of the listing. A directory that cannot be listed
  yields nothing.\<close>

fun walk :: "string \<Rightarrow> 't fs_entry list option \<Rightarrow> (string \<times> 't fs_entry list \<times> 't fs_entry list) list"
  and walk_subdirs :: "string \<Rightarrow> 't fs_entry list \<Rightarrow> (string \<times> 't fs_entry list \<times> 't fs_entry list) list"
where
  "walk dirpath None = []"
| "walk dirpath (Some es) =
     (dirpath, filter is_dir_entry es, filter (\<lambda>e. \<not> is_dir_entry e) es) # walk_subdirs dirpath es"
| "walk_subdirs dirpath [] = []"
| "walk_subdirs dirpath (File _ _ _ # es) = walk_subdirs dirpath es"
| "walk_subdirs dirpath (DirLink _ # es) = walk_subdirs dirpath es"
| "walk_subdirs dirpath (Dir name _ listing # es) = walk (join dirpath name) listing @ walk_subdirs dirpath es"

subsection \<open>Scanning\<close>

text \<open>The body of the inner loop of \<open>iter_files\<close>: the triple yielded for the file \<open>f\<close> of the
  directory \<open>dp\<close>, or nothing when \<^verbatim>\<open>os.stat\<close> raises.\<close>

fun stat_file :: "string \<Rightarrow> 't fs_entry \<Rightarrow> (string \<times> int \<times> 't) option" where
  "stat_file dp (File name (Some (sz, mtime)) _) = Some (join dp name, sz, mtime)"
| "stat_file dp _ = None"

definition iter_files :: "'t root \<Rightarrow> (string \<times> int \<times> 't) list" where
  "iter_files root =
     concat (map (\<lambda>(dp, dn, fn). List.map_filter (stat_file dp) fn) (walk (fst root) (snd root)))"

text \<open>The loop of \<open>top_files\<close> over the stream of files, from a given heap. \<open>heap[0]\<close> raises
  \<^verbatim>\<open>IndexError\<close> on an empty list.\<close>

fun top_files_loop ::
  "int \<Rightarrow> (string \<times> int \<times> 't::linorder) list \<Rightarrow> (int \<times> string \<times> 't) list
     \<Rightarrow> py_error + (int \<times> string \<times> 't) list" where
  "top_files_loop n [] heap = Inr heap"
| "top_files_loop n ((path, sz, mtime) # rest) heap =
     (if int (length heap) < n then top_files_loop n rest (heappush heap (sz, path, mtime))
      else (case heap of
              [] \<Rightarrow> Inl IndexError
            | smallest # _ \<Rightarrow>
                if sz > fst smallest then
                  (case heapreplace heap (sz, path, mtime) of
                     Inl e \<Rightarrow> Inl e
                   | Inr heap' \<Rightarrow> top_files_loop n rest heap')
                else top_files_loop n rest heap))"

text \<open>\<open>top_files\<close> on the stream that \<open>iter_files\<close> yields: the loop from the empty heap, then
  \<^verbatim>\<open>heap.sort(reverse=True)\<close>.\<close>

definition top_files_of :: "(string \<times> int \<times> 't::linorder) list \<Rightarrow> int \<Rightarrow> py_error + (int \<times> string \<times> 't) list" where
  "top_files_of files n =
     (case top_files_loop n files [] of Inl e \<Rightarrow> Inl e | Inr heap \<Rightarrow> Inr (rev (sort heap)))"

definition top_files :: "'t::linorder root \<Rightarrow> int \<Rightarrow> py_error + (int \<times> string \<times> 't) list" where
  "top_files root n = top_files_of (iter_files root) n"

text \<open>\<open>folder_size\<close>: the sum of \<^verbatim>\<open>os.path.getsize\<close> over the files of the walk; a file whose
  size cannot be read is skipped.\<close>

fun getsize :: "'t fs_entry \<Rightarrow> int option" where
  "getsize (File _ _ g) = g"
| "getsize _ = None"

definition folder_size :: "string \<Rightarrow> 't fs_entry list option \<Rightarrow> int" where
  "folder_size folder listing =
     fold (\<lambda>(dp, dn, fn) total.
             fold (\<lambda>f total. case getsize f of Some sz \<Rightarrow> total + sz | None \<Rightarrow> total) fn total)
          (walk folder listing) 0"

text \<open>The slice \<^verbatim>\<open>xs[:n]\<close>; a negative \<open>n\<close> counts from the end.\<close>

definition slice_to :: "'a list \<Rightarrow> int \<Rightarrow> 'a list" where
  "slice_to xs n = (if 0 \<le> n then take (nat n) xs else take (length xs - nat (- n)) xs)"

text \<open>The body of the loop of \<open>top_folders\<close> for the entry \<open>e\<close> of the root: the triple appended
  to \<open>entries\<close>, or nothing when \<open>e\<close> is not a directory or its \<^verbatim>\<open>stat\<close> raises.\<close>

fun folder_entry :: "string \<Rightarrow> 't fs_entry \<Rightarrow> (int \<times> string \<times> 't) option" where
  "folder_entry root (Dir name (Some mtime) listing) =
     Some (folder_size (join root name) listing, join root name, mtime)"
| "folder_entry root _ = None"

definition top_folders :: "'t::linorder root \<Rightarrow> int \<Rightarrow> (int \<times> string \<times> 't) list" where
  "top_folders root n =
     (case snd root of
        None \<Rightarrow> []
      | Some es \<Rightarrow> slice_to (rev (sort (List.map_filter (folder_entry (fst root)) es))) n)"

subsection \<open>Disk enumeration\<close>

text \<open>
  What \<open>enumerate_disks\<close> reads from the host; \<open>None\<close> stands for a call that raises.

  \<^item> \<open>is_windows\<close>: \<^verbatim>\<open>os.name == "nt"\<close>.
  \<^item> \<open>logical_drives\<close>: the bit mask returned by \<^verbatim>\<open>GetLogicalDrives()\<close>.
  \<^item> \<open>drive_type\<close>: \<^verbatim>\<open>GetDriveTypeW\<close> of a drive root.
  \<^item> \<open>disk_usage\<close>: \<^verbatim>\<open>shutil.disk_usage\<close> of a path, \<open>(total, used, free)\<close>.
  \<^item> \<open>proc_mounts\<close>: the lines of \<^verbatim>\<open>/proc/mounts\<close>.
  \<^item> \<open>df_lines\<close>: the lines of the output of \<^verbatim>\<open>df\<close>.
  \<^item> \<open>isdir\<close>: \<^verbatim>\<open>os.path.isdir\<close>.
\<close>

record host =
  is_windows :: bool
  logical_drives :: int
  drive_type :: "string \<Rightarrow> int option"
  disk_usage :: "string \<Rightarrow> (int \<times> int \<times> int) option"
  proc_mounts :: "string list option"
  df_lines :: "string list option"
  isdir :: "string \<Rightarrow> bool"

text \<open>A reported disk: \<open>(name, path, total, free)\<close>.\<close>

type_synonym disk = "string \<times> string \<times> int \<times> int"

text \<open>\<^verbatim>\<open>s.split()\<close>: the maximal runs of characters that are not white space.\<close>

fun split_ws_from :: "string \<Rightarrow> string \<Rightarrow> string list" where
  "split_ws_from cur [] = (if cur = [] then [] else [cur])"
| "split_ws_from cur (c # cs) =
     (if py_isspace c then (if cur = [] then [] else [cur]) @ split_ws_from [] cs
      else split_ws_from (cur @ [c]) cs)"

definition split_ws :: "string \<Rightarrow> string list" where
  "split_ws s = split_ws_from [] s"

text \<open>\<^verbatim>\<open>s.startswith(p)\<close>\<close>

definition startswith :: "string \<Rightarrow> string \<Rightarrow> bool" where
  "startswith s p = (take (length p) s = p)"

text \<open>The drive-letter strategy (lines 40-53).\<close>

definition ascii_uppercase :: string where
  "ascii_uppercase = ''ABCDEFGHIJKLMNOPQRSTUVWXYZ''"

definition DRIVE_FIXED :: int where
  "DRIVE_FIXED = 3"

definition drive_entry :: "host \<Rightarrow> nat \<times> char \<Rightarrow> disk option" where
  "drive_entry h = (\<lambda>(i, letter).
     if bit (logical_drives h) i then
       (let root = [letter, CHR '':'', CHR 0x5C]
        in case drive_type h root of
             None \<Rightarrow> None
           | Some ty \<Rightarrow>
               if ty = DRIVE_FIXED then
                 (case disk_usage h root of
                    None \<Rightarrow> None
                  | Some (tot, used, free) \<Rightarrow> Some ([letter, CHR '':''], root, tot, free))
               else None)
     else None)"

definition windows_disks :: "host \<Rightarrow> disk list" where
  "windows_disks h = List.map_filter (drive_entry h) (enumerate 0 ascii_uppercase)"

text \<open>The mount table (lines 55-74): the second field of every line of \<^verbatim>\<open>/proc/mounts\<close>
  that has one; when the file cannot be opened, the last column of every line of \<^verbatim>\<open>df\<close>
  after the header that has six columns; when that fails too, the root alone.\<close>

definition mount_field :: "string \<Rightarrow> string option" where
  "mount_field line = (let parts = split_ws line in if length parts \<ge> 2 then Some (parts ! 1) else None)"

definition df_field :: "string \<Rightarrow> string option" where
  "df_field line = (let cols = split_ws line in if length cols \<ge> 6 then Some (last cols) else None)"

definition read_mounts :: "host \<Rightarrow> string list" where
  "read_mounts h =
     (case proc_mounts h of
        Some lines \<Rightarrow> List.map_filter mount_field lines
      | None \<Rightarrow>
          (case df_lines h of
             Some out \<Rightarrow> List.map_filter df_field (drop 1 out)
           | None \<Rightarrow> [''/'']))"

text \<open>The filter loop over the mounts (lines 76-89), from a given set \<open>seen\<close>; the result
  is the list of disks appended, in order.\<close>

definition deny_prefixes :: "string list" where
  "deny_prefixes = [''/proc'', ''/sys'', ''/dev'', ''/run'', ''/snap'', ''/private/var'']"

fun scan_mounts :: "host \<Rightarrow> string list \<Rightarrow> string set \<Rightarrow> disk list" where
  "scan_mounts h [] seen = []"
| "scan_mounts h (mnt # rest) seen =
     (if \<not> isdir h mnt then scan_mounts h rest seen
      else if list_ex (startswith mnt) deny_prefixes then scan_mounts h rest seen
      else if mnt \<in> seen then scan_mounts h rest seen
      else (case disk_usage h mnt of
              Some (tot, used, free) \<Rightarrow> (mnt, mnt, tot, free) # scan_mounts h rest (insert mnt seen)
            | None \<Rightarrow> scan_mounts h rest (insert mnt seen)))"

text \<open>\<open>enumerate_disks\<close>: the disks of the strategy for the host, then the stable sort
  \<^verbatim>\<open>disks.sort(key=lambda t: t[0])\<close>.\<close>

definition enumerate_disks :: "host \<Rightarrow> disk list" where
  "enumerate_disks h =
     sort_key fst (if is_windows h then windows_disks h else scan_mounts h (read_mounts h) {})"

subsection \<open>Notions used in the statements\<close>

text \<open>The heap invariant of \<^verbatim>\<open>heapq\<close>: every item is at least its parent, the item at
  position \<open>(i - 1) div 2\<close>.\<close>

definition is_heap :: "'a::linorder list \<Rightarrow> bool" where
  "is_heap h = list_all (\<lambda>i. h ! ((i - 1) div 2) \<le> h ! i) [1..<length h]"

text \<open>The heap item \<open>(size, path, mtime)\<close> that \<open>top_files\<close> builds from a triple
  \<open>(path, size, mtime)\<close> of \<open>iter_files\<close>, and the size of such a triple.\<close>

fun item_of :: "string \<times> int \<times> 't \<Rightarrow> int \<times> string \<times> 't" where
  "item_of (path, sz, mtime) = (sz, path, mtime)"

definition size_of :: "string \<times> int \<times> 't \<Rightarrow> int" where
  "size_of f = fst (snd f)"

text \<open>
  The total size beneath an entry, by recursion on the tree: the size of a file (nothing
  when it cannot be read), the sum over the entries of a directory, nothing for a directory
  that cannot be listed and for a link.
\<close>

fun size_beneath :: "'t fs_entry \<Rightarrow> int"
  and sizes_beneath :: "'t fs_entry list \<Rightarrow> int" where
  "size_beneath (File _ _ g) = (case g of None \<Rightarrow> 0 | Some s \<Rightarrow> s)"
| "size_beneath (Dir _ _ None) = 0"
| "size_beneath (Dir _ _ (Some es)) = sizes_beneath es"
| "size_beneath (DirLink _) = 0"
| "sizes_beneath [] = 0"
| "sizes_beneath (e # es) = size_beneath e + sizes_beneath es"

definition listing_size :: "'t fs_entry list option \<Rightarrow> int" where
  "listing_size listing = (case listing of None \<Rightarrow> 0 | Some es \<Rightarrow> sizes_beneath es)"

definition add_sizes :: "(string \<times> 't fs_entry list \<times> 't fs_entry list) \<Rightarrow> int \<Rightarrow> int" where
  "add_sizes = (\<lambda>(dp, dn, fn) total.
             fold (\<lambda>f total. case getsize f of Some sz \<Rightarrow> total + sz | None \<Rightarrow> total) fn total)"

text \<open>The parts of that sum contributed by the files of a directory and by its
  subdirectories.\<close>

fun subdirs_size :: "'t fs_entry list \<Rightarrow> int" where
  "subdirs_size [] = 0"
| "subdirs_size (Dir _ _ l # es) = listing_size l + subdirs_size es"
| "subdirs_size (_ # es) = subdirs_size es"

fun files_size :: "'t fs_entry list \<Rightarrow> int" where
  "files_size [] = 0"
| "files_size (File _ _ g # es) = (case g of None \<Rightarrow> 0 | Some s \<Rightarrow> s) + files_size es"
| "files_size (_ # es) = files_size es"

text \<open>The entries of a root (none when it cannot be opened), and the entries among them
  that are directories themselves.\<close>

definition entries_of :: "'t root \<Rightarrow> 't fs_entry list" where
  "entries_of root = (case snd root of None \<Rightarrow> [] | Some es \<Rightarrow> es)"

fun is_directory :: "'t fs_entry \<Rightarrow> bool" where
  "is_directory (Dir _ _ _) = True"
| "is_directory _ = False"

text \<open>A small tree: a file \<open>/r/a\<close>, a directory \<open>/r/d\<close> holding a file of size 7, a
  directory \<open>/r/d/e\<close> that cannot be listed and a file \<open>/r/d/f/c\<close> of size 20 two levels
  below the root, and an empty directory \<open>/r/z\<close>.\<close>

definition example_root :: "int root" where
  "example_root =
     (''/r'', Some [File ''a'' (Some (10, 1)) (Some 10),
                    Dir ''d'' (Some 3)
                      (Some [File ''b'' (Some (7, 2)) (Some 7),
                             Dir ''e'' (Some 5) None,
                             Dir ''f'' (Some 1) (Some [File ''c'' (Some (20, 1)) (Some 20)])]),
                    Dir ''z'' (Some 1) (Some [])])"

text \<open>
  A mount is eligible when it is a directory and starts with none of the denied prefixes;
  \<open>disk_of\<close> is the disk reported for a mount whose capacity can be read.
\<close>

definition eligible :: "host \<Rightarrow> string \<Rightarrow> bool" where
  "eligible h mnt = (isdir h mnt \<and> \<not> list_ex (startswith mnt) deny_prefixes)"

definition disk_of :: "host \<Rightarrow> string \<Rightarrow> disk option" where
  "disk_of h mnt =
     (case disk_usage h mnt of Some (tot, used, free) \<Rightarrow> Some (mnt, mnt, tot, free) | None \<Rightarrow> None)"

text \<open>
  The program resolves no path. To speak of the path a mount entry resolves to, the
  following removes trailing separators, which never change the directory that a path
  names (the root stays \<^verbatim>\<open>/\<close>).
\<close>

definition resolve_path :: "string \<Rightarrow> string" where
  "resolve_path p =
     (let q = rev (dropWhile (\<lambda>c. c = CHR ''/'') (rev p))
      in if q = [] \<and> p \<noteq> [] then ''/'' else q)"

text \<open>
  Three hosts with a mount table: one on which \<^verbatim>\<open>/data\<close> is listed twice, \<^verbatim>\<open>/proc\<close> is
  denied and the capacity of \<^verbatim>\<open>/boot\<close> cannot be read; one on which \<^verbatim>\<open>/data\<close> is listed a
  second time with a trailing separator; and the first one with its table in another order.
\<close>

definition mounts_host :: host where
  "mounts_host =
     \<lparr> is_windows = False, logical_drives = 0, drive_type = (\<lambda>_. None),
       disk_usage = (\<lambda>p. if p = ''/boot'' then None else Some (100, 40, 60)),
       proc_mounts = Some [''/dev/sda1 /data ext4 rw 0 0'', ''proc /proc proc rw 0 0'',
                           ''/dev/sda2 /boot ext4 rw 0 0'', ''tmpfs /data tmpfs rw 0 0'',
                           ''/dev/sdb1 / ext4 rw 0 0''],
       df_lines = None, isdir = (\<lambda>_. True) \<rparr>"

definition trailing_slash_host :: host where
  "trailing_slash_host =
     mounts_host \<lparr> proc_mounts := Some [''/dev/sda1 /data ext4 rw 0 0'',
                                         ''/dev/sda1 /data/ ext4 rw 0 0''] \<rparr>"

definition reordered_host :: host where
  "reordered_host =
     mounts_host \<lparr> proc_mounts := Some [''/dev/sdb1 / ext4 rw 0 0'', ''tmpfs /data tmpfs rw 0 0'',
                                         ''/dev/sda2 /boot ext4 rw 0 0'', ''proc /proc proc rw 0 0'',
                                         ''/dev/sda1 /data ext4 rw 0 0''] \<rparr>"




section \<open>The heap queue keeps its invariant\<close>

text \<open>The list after \<open>_siftdown\<close> holds the items of the list with the new item in the
  hole.\<close>

lemma is_heap_iff: "is_heap h \<longleftrightarrow> (\<forall>i. 0 < i \<and> i < length h \<longrightarrow> h ! ((i - 1) div 2) \<le> h ! i)"
  by (auto simp: is_heap_def list_all_iff)

lemma length_siftdown_loop: "length (siftdown_loop heap s x pos) = length heap"
  by (induction heap s x pos rule: siftdown_loop.induct) (subst siftdown_loop.simps, simp add: Let_def)

lemma mset_update_swap:
  assumes "i < length h" "j < length h" "i \<noteq> j"
  shows "mset (h[i := h ! j, j := x]) = mset (h[i := x])"
  using assms by (simp add: mset_update nth_list_update)

lemma mset_siftdown_loop:
  "pos < length heap \<Longrightarrow> mset (siftdown_loop heap s x pos) = mset (heap[pos := x])"
proof (induction heap s x pos rule: siftdown_loop.induct)
  case (1 heap startpos newitem pos)
  show ?case
  proof (cases "pos > startpos \<and> newitem < heap ! ((pos - 1) div 2)")
    case True
    then have lt: "(pos - 1) div 2 < pos" by linarith
    have "mset (siftdown_loop heap startpos newitem pos)
          = mset (siftdown_loop (heap[pos := heap ! ((pos - 1) div 2)]) startpos newitem ((pos - 1) div 2))"
      using True by (subst siftdown_loop.simps) (simp add: Let_def)
    also have "\<dots> = mset (heap[pos := heap ! ((pos - 1) div 2), (pos - 1) div 2 := newitem])"
      using "1.IH"[OF _ refl refl] True lt "1.prems" by simp
    also have "\<dots> = mset (heap[pos := newitem])"
      using mset_update_swap[of pos heap "(pos - 1) div 2" newitem] lt "1.prems" by simp
    finally show ?thesis .
  next
    case False
    then show ?thesis by (subst siftdown_loop.simps) (auto simp: Let_def)
  qed
qed

text \<open>
  \<open>_siftdown\<close> towards the root. The list is a heap except at the edge into the hole \<open>pos\<close>,
  the parent of the hole is at most the children of the hole, and so is the new item: then
  the result is a heap.
\<close>

lemma is_heap_siftdown_loop:
  assumes "pos < length heap"
    and "\<And>i. 0 < i \<Longrightarrow> i < length heap \<Longrightarrow> i \<noteq> pos \<Longrightarrow> heap ! ((i - 1) div 2) \<le> heap ! i"
    and "\<And>c. 0 < c \<Longrightarrow> c < length heap \<Longrightarrow> (c - 1) div 2 = pos \<Longrightarrow> 0 < pos
            \<Longrightarrow> heap ! ((pos - 1) div 2) \<le> heap ! c"
    and "\<And>c. 0 < c \<Longrightarrow> c < length heap \<Longrightarrow> (c - 1) div 2 = pos \<Longrightarrow> x \<le> heap ! c"
  shows "is_heap (siftdown_loop heap 0 x pos)"
  using assms
proof (induction heap "0::nat" x pos rule: siftdown_loop.induct)
  case (1 heap newitem pos)
  let ?pp = "(pos - 1) div 2"
  note plen = "1.prems"(1)
  note E = "1.prems"(2)
  note C1 = "1.prems"(3)
  note C2 = "1.prems"(4)
  show ?case
  proof (cases "0 < pos \<and> newitem < heap ! ?pp")
    case True
    then have p1: "0 < pos" and p2: "newitem < heap ! ?pp" by simp_all
    have nle: "newitem \<le> heap ! ?pp" using p2 by (rule less_imp_le)
    let ?h = "heap[pos := heap ! ?pp]"
    have lt: "?pp < pos" using p1 by linarith
    have eq: "siftdown_loop heap 0 newitem pos = siftdown_loop ?h 0 newitem ?pp"
      using True by (subst siftdown_loop.simps) (simp add: Let_def)
    have len: "?pp < length ?h" using lt plen by simp
    have E': "?h ! ((i - 1) div 2) \<le> ?h ! i"
      if i: "0 < i" "i < length ?h" "i \<noteq> ?pp" for i
    proof (cases "i = pos")
      case True
      then show ?thesis using lt plen by (simp add: nth_list_update)
    next
      case ne: False
      show ?thesis
      proof (cases "(i - 1) div 2 = pos")
        case True
        have "heap ! ?pp \<le> heap ! i" using C1[of i] i True p1 by simp
        then show ?thesis using True ne plen by (simp add: nth_list_update)
      next
        case False
        have "heap ! ((i - 1) div 2) \<le> heap ! i" using E[of i] i ne by simp
        then show ?thesis using False ne by (simp add: nth_list_update)
      qed
    qed
    have C1': "?h ! ((?pp - 1) div 2) \<le> ?h ! c"
      if c: "0 < c" "c < length ?h" "(c - 1) div 2 = ?pp" "0 < ?pp" for c
    proof -
      have a: "heap ! ((?pp - 1) div 2) \<le> heap ! ?pp"
        using E[of ?pp] c(4) lt plen by simp
      have ne1: "(?pp - 1) div 2 \<noteq> pos" using c(4) lt by linarith
      show ?thesis
      proof (cases "c = pos")
        case True
        then show ?thesis using a ne1 plen by (simp add: nth_list_update)
      next
        case False
        have "heap ! ?pp \<le> heap ! c" using E[of c] c False by simp
        with a have "heap ! ((?pp - 1) div 2) \<le> heap ! c" by (rule order_trans)
        then show ?thesis using ne1 False by (simp add: nth_list_update)
      qed
    qed
    have C2': "newitem \<le> ?h ! c"
      if c: "0 < c" "c < length ?h" "(c - 1) div 2 = ?pp" for c
    proof (cases "c = pos")
      case True
      then show ?thesis using nle plen by (simp add: nth_list_update)
    next
      case False
      have "heap ! ?pp \<le> heap ! c" using E[of c] c False by simp
      with nle have "newitem \<le> heap ! c" by (rule order_trans)
      then show ?thesis using False by (simp add: nth_list_update)
    qed
    have "is_heap (siftdown_loop ?h 0 newitem ?pp)"
      by (rule "1.hyps"[OF p1 refl refl p2 len E' C1' C2'])
    then show ?thesis using eq by simp
  next
    case False
    let ?h = "heap[pos := newitem]"
    have eq: "siftdown_loop heap 0 newitem pos = ?h"
      using False by (subst siftdown_loop.simps) (auto simp: Let_def)
    have "?h ! ((i - 1) div 2) \<le> ?h ! i" if i: "0 < i" "i < length ?h" for i
    proof (cases "i = pos")
      case True
      then have "(i - 1) div 2 \<noteq> pos" using i by linarith
      moreover have "heap ! ?pp \<le> newitem" using False True i by simp
      ultimately show ?thesis using True plen by (simp add: nth_list_update)
    next
      case ne: False
      show ?thesis
      proof (cases "(i - 1) div 2 = pos")
        case True
        have "newitem \<le> heap ! i" using C2[of i] i True by simp
        then show ?thesis using True ne plen by (simp add: nth_list_update)
      next
        case False
        have "heap ! ((i - 1) div 2) \<le> heap ! i" using E[of i] i ne by simp
        then show ?thesis using False ne by (simp add: nth_list_update)
      qed
    qed
    then show ?thesis using eq by (simp add: is_heap_iff)
  qed
qed

text \<open>From a list that is a heap except for the edges out of position 0 when \<open>pos = 0\<close>
  (and a heap when \<open>pos > 0\<close>), the loop of \<open>_siftup\<close> yields a heap and the position of a
  leaf.\<close>

lemma siftup_loop_props:
  assumes "siftup_loop heap pos = (heap', leaf)"
    and "pos < length heap"
    and "\<And>i. 0 < i \<Longrightarrow> i < length heap \<Longrightarrow> (i - 1) div 2 \<noteq> 0 \<or> pos \<noteq> 0
            \<Longrightarrow> heap ! ((i - 1) div 2) \<le> heap ! i"
  shows "is_heap heap' \<and> length heap' = length heap \<and> leaf < length heap
         \<and> length heap \<le> 2 * leaf + 1
         \<and> mset (heap'[leaf := x]) = mset (heap[pos := x])"
  using assms
proof (induction heap pos arbitrary: heap' leaf rule: siftup_loop.induct)
  case (1 heap pos)
  note run = "1.prems"(1)
  note plen = "1.prems"(2)
  note E = "1.prems"(3)
  show ?case
  proof (cases "2 * pos + 1 < length heap")
    case False
    then have "siftup_loop heap pos = (heap, pos)"
      by (subst siftup_loop.simps) (simp add: Let_def)
    with run have eqs: "heap' = heap" "leaf = pos" by simp_all
    have "heap ! ((i - 1) div 2) \<le> heap ! i" if i: "0 < i" "i < length heap" for i
    proof (cases "(i - 1) div 2 \<noteq> 0 \<or> pos \<noteq> 0")
      case True
      then show ?thesis using E[of i] i by simp
    next
      case F: False
      then have "i \<le> 2" by linarith
      then show ?thesis using False F i by linarith
    qed
    then have "is_heap heap" by (simp add: is_heap_iff)
    then show ?thesis using eqs plen False by simp
  next
    case True
    define cp where "cp = (if 2 * pos + 1 + 1 < length heap \<and> \<not> heap ! (2 * pos + 1) < heap ! (2 * pos + 1 + 1)
                            then 2 * pos + 1 + 1 else 2 * pos + 1)"
    let ?h = "heap[pos := heap ! cp]"
    have cp_cases: "cp = 2 * pos + 1 \<or> cp = 2 * pos + 2" by (simp add: cp_def)
    have cp_len: "cp < length heap" using True by (simp add: cp_def)
    have cp_par: "(cp - 1) div 2 = pos" using cp_cases by auto
    have cp_pos: "0 < cp" "pos < cp" using cp_cases by auto
    have eq: "siftup_loop heap pos = siftup_loop ?h cp"
      using True by (subst siftup_loop.simps) (simp add: Let_def cp_def)
    have min_child: "heap ! cp \<le> heap ! c"
      if c: "0 < c" "c < length heap" "(c - 1) div 2 = pos" for c
    proof -
      have cc: "c = 2 * pos + 1 \<or> c = 2 * pos + 2" using c by linarith
      show ?thesis
      proof (cases "c = cp")
        case True then show ?thesis by simp
      next
        case False
        show ?thesis
        proof (cases "cp = 2 * pos + 1")
          case True
          then have c2: "c = 2 * pos + 2" using cc False by simp
          then have "\<not> (2 * pos + 2 < length heap \<and> \<not> heap ! (2 * pos + 1) < heap ! (2 * pos + 2))"
            using True by (auto simp: cp_def split: if_splits)
          then have "heap ! (2 * pos + 1) < heap ! (2 * pos + 2)" using c c2 by simp
          then show ?thesis using True c2 by (simp add: less_imp_le)
        next
          case F2: False
          then have cp2: "cp = 2 * pos + 2" using cp_cases by simp
          then have c1: "c = 2 * pos + 1" using cc False by simp
          have "\<not> heap ! (2 * pos + 1) < heap ! (2 * pos + 2)"
            using cp2 by (auto simp: cp_def split: if_splits)
          then show ?thesis using cp2 c1 by simp
        qed
      qed
    qed
    have E': "?h ! ((i - 1) div 2) \<le> ?h ! i"
      if i: "0 < i" "i < length ?h" "(i - 1) div 2 \<noteq> 0 \<or> cp \<noteq> 0" for i
    proof (cases "i = pos")
      case True
      then have ppos: "0 < pos" using i by simp
      have ne: "(i - 1) div 2 \<noteq> pos" using True i by linarith
      have a: "heap ! ((pos - 1) div 2) \<le> heap ! pos" using E[of pos] ppos plen by simp
      have b: "heap ! pos \<le> heap ! cp" using E[of cp] cp_pos cp_len cp_par ppos by simp
      from a b have "heap ! ((pos - 1) div 2) \<le> heap ! cp" by (rule order_trans)
      then show ?thesis using True ne plen by (simp add: nth_list_update)
    next
      case ne: False
      show ?thesis
      proof (cases "(i - 1) div 2 = pos")
        case True
        have "heap ! cp \<le> heap ! i" using min_child[of i] i True by simp
        then show ?thesis using True ne plen by (simp add: nth_list_update)
      next
        case False
        have "(i - 1) div 2 \<noteq> 0 \<or> pos \<noteq> 0" using False by auto
        then have "heap ! ((i - 1) div 2) \<le> heap ! i" using E[of i] i by simp
        then show ?thesis using False ne by (simp add: nth_list_update)
      qed
    qed
    have run': "siftup_loop ?h cp = (heap', leaf)" using run eq by simp
    have len': "cp < length ?h" using cp_len by simp
    have IH: "is_heap heap' \<and> length heap' = length ?h \<and> leaf < length ?h
         \<and> length ?h \<le> 2 * leaf + 1
         \<and> mset (heap'[leaf := x]) = mset (?h[cp := x])"
      by (rule "1.IH"[OF refl refl True refl cp_def run' len' E'])
    have "mset (?h[cp := x]) = mset (heap[pos := x])"
      using mset_update_swap[of pos heap cp x] plen cp_len cp_pos by simp
    then show ?thesis using IH by simp
  qed
qed

text \<open>The two operations of the program: both keep the invariant; \<open>heappush\<close> adds the
  item, \<open>heapreplace\<close> exchanges the item at the root for the new one. The root of a heap
  is its least item.\<close>

lemma is_heap_Nil: "is_heap []" by (simp add: is_heap_def)

lemma is_heap_heappush:
  assumes "is_heap heap"
  shows "is_heap (heappush heap item)"
proof -
  let ?h = "heap @ [item]"
  have E: "?h ! ((i - 1) div 2) \<le> ?h ! i" if i: "0 < i" "i < length ?h" "i \<noteq> length heap" for i
  proof -
    have il: "i < length heap" using i by simp
    then have "(i - 1) div 2 < length heap" by linarith
    then show ?thesis using assms il i(1) by (simp add: is_heap_iff nth_append)
  qed
  have no_child: False if c: "0 < c" "c < length ?h" "(c - 1) div 2 = length heap" for c
  proof -
    have "c \<le> length heap" using c(2) by simp
    then show False using c(1,3) by linarith
  qed
  have "is_heap (siftdown_loop ?h 0 item (length heap))"
  proof (rule is_heap_siftdown_loop)
    show "length heap < length ?h" by simp
  next
    fix i assume "0 < i" "i < length ?h" "i \<noteq> length heap"
    then show "?h ! ((i - 1) div 2) \<le> ?h ! i" by (rule E)
  next
    fix c assume "0 < c" "c < length ?h" "(c - 1) div 2 = length heap"
    then have False by (rule no_child)
    then show "?h ! ((length heap - 1) div 2) \<le> ?h ! c" ..
  next
    fix c assume "0 < c" "c < length ?h" "(c - 1) div 2 = length heap"
    then have False by (rule no_child)
    then show "item \<le> ?h ! c" ..
  qed
  then show ?thesis by (simp add: heappush_def siftdown_def)
qed

lemma mset_heappush: "mset (heappush heap item) = add_mset item (mset heap)"
proof -
  have "mset (siftdown_loop (heap @ [item]) 0 item (length heap)) = mset ((heap @ [item])[length heap := item])"
    by (rule mset_siftdown_loop) simp
  then show ?thesis by (simp add: heappush_def siftdown_def)
qed

lemma heapreplace_props:
  assumes "is_heap heap" "heap \<noteq> []"
  shows "\<exists>heap'. heapreplace heap item = Inr heap' \<and> is_heap heap'
           \<and> mset heap' = add_mset item (mset heap - {#heap ! 0#})"
proof -
  let ?h1 = "heap[0 := item]"
  obtain h2 leaf where run: "siftup_loop ?h1 0 = (h2, leaf)" by (cases "siftup_loop ?h1 0")
  have len1: "0 < length ?h1" using assms(2) by simp
  have E1: "?h1 ! ((i - 1) div 2) \<le> ?h1 ! i"
    if i: "0 < i" "i < length ?h1" "(i - 1) div 2 \<noteq> 0 \<or> (0::nat) \<noteq> 0" for i
  proof -
    have "heap ! ((i - 1) div 2) \<le> heap ! i" using assms(1) i by (simp add: is_heap_iff)
    then show ?thesis using i by (simp add: nth_list_update)
  qed
  have P: "is_heap h2 \<and> length h2 = length ?h1 \<and> leaf < length ?h1
         \<and> length ?h1 \<le> 2 * leaf + 1
         \<and> mset (h2[leaf := item]) = mset (?h1[0 := item])"
    by (rule siftup_loop_props[OF run len1 E1])
  let ?h3 = "h2[leaf := item]"
  have leaf_len: "leaf < length ?h3" using P by simp
  have E3: "?h3 ! ((i - 1) div 2) \<le> ?h3 ! i" if i: "0 < i" "i < length ?h3" "i \<noteq> leaf" for i
  proof -
    have "i < length h2" using i(2) by simp
    then have "(i - 1) div 2 \<noteq> leaf" using i(1) P by linarith
    moreover have "h2 ! ((i - 1) div 2) \<le> h2 ! i" using P i by (simp add: is_heap_iff)
    ultimately show ?thesis using i by (simp add: nth_list_update)
  qed
  have no_child: False if c: "0 < c" "c < length ?h3" "(c - 1) div 2 = leaf" for c
  proof -
    have "c < length h2" using c(2) by simp
    then show False using c(1,3) P by linarith
  qed
  have H: "is_heap (siftdown_loop ?h3 0 item leaf)"
  proof (rule is_heap_siftdown_loop)
    show "leaf < length ?h3" by (rule leaf_len)
  next
    fix i assume "0 < i" "i < length ?h3" "i \<noteq> leaf"
    then show "?h3 ! ((i - 1) div 2) \<le> ?h3 ! i" by (rule E3)
  next
    fix c assume "0 < c" "c < length ?h3" "(c - 1) div 2 = leaf"
    then have False by (rule no_child)
    then show "?h3 ! ((leaf - 1) div 2) \<le> ?h3 ! c" ..
  next
    fix c assume "0 < c" "c < length ?h3" "(c - 1) div 2 = leaf"
    then have False by (rule no_child)
    then show "item \<le> ?h3 ! c" ..
  qed
  have M: "mset (siftdown_loop ?h3 0 item leaf) = mset (?h3[leaf := item])"
    by (rule mset_siftdown_loop[OF leaf_len])
  have M2: "mset (?h3[leaf := item]) = add_mset item (mset heap - {#heap ! 0#})"
    using P assms(2) by (simp add: mset_update)
  have res: "heapreplace heap item = Inr (siftdown_loop ?h3 0 item leaf)"
    using assms(2) run leaf_len by (simp add: heapreplace_def siftup_def siftdown_def)
  show ?thesis using res H M M2 by simp
qed

lemma heap_root_le:
  assumes "is_heap h" "i < length h"
  shows "h ! 0 \<le> h ! i"
  using assms(2)
proof (induction i rule: less_induct)
  case (less i)
  show ?case
  proof (cases "i = 0")
    case True then show ?thesis by simp
  next
    case False
    then have lt: "(i - 1) div 2 < i" by linarith
    then have "h ! 0 \<le> h ! ((i - 1) div 2)" using less by simp
    moreover have "h ! ((i - 1) div 2) \<le> h ! i" using assms(1) False less.prems by (simp add: is_heap_iff)
    ultimately show ?thesis by (rule order_trans)
  qed
qed

lemma heap_hd_least:
  assumes "is_heap h" "x \<in> set h"
  shows "hd h \<le> x"
proof -
  obtain i where "i < length h" "h ! i = x" using assms(2) by (auto simp: in_set_conv_nth)
  moreover have "hd h = h ! 0" using assms(2) by (cases h) auto
  ultimately show ?thesis using heap_root_le[OF assms(1), of i] by simp
qed

section \<open>The Top-N selection of files\<close>

text \<open>
  The invariant of the loop of \<open>top_files\<close> for \<open>n \<ge> 1\<close>: the list is a heap of at most \<open>n\<close>
  items; together with the rejected items \<open>R\<close> it holds every item seen; while it has fewer
  than \<open>n\<close> items nothing was rejected; and no rejected item is larger than a kept one.
\<close>

lemma fst_mono_prod: "(a :: 'a::linorder \<times> 'b::linorder) \<le> b \<Longrightarrow> fst a \<le> fst b"
  by (auto simp: less_eq_prod_def)

lemma heap_hd_least_size:
  assumes "is_heap (h :: (int \<times> 'b::linorder) list)" "y \<in> set h"
  shows "fst (hd h) \<le> fst y"
  using heap_hd_least[OF assms] by (rule fst_mono_prod)

lemma top_files_loop_inv:
  fixes heap :: "(int \<times> string \<times> 't::linorder) list"
  assumes "1 \<le> n" "is_heap heap" "int (length heap) \<le> n"
    and "int (length heap) < n \<Longrightarrow> R = {#}"
    and "\<And>r y. r \<in># R \<Longrightarrow> y \<in> set heap \<Longrightarrow> fst r \<le> fst y"
  shows "\<exists>heap' R'. top_files_loop n files heap = Inr heap' \<and> is_heap heap'
           \<and> mset heap' + R' = mset heap + R + mset (map item_of files)
           \<and> int (length heap') \<le> n \<and> (int (length heap') < n \<longrightarrow> R' = {#})
           \<and> (\<forall>r y. r \<in># R' \<longrightarrow> y \<in> set heap' \<longrightarrow> fst r \<le> fst y)"
  using assms(2-)
proof (induction files arbitrary: heap R)
  case Nil
  then show ?case by auto
next
  case (Cons f files)
  obtain path sz mtime where f: "f = (path, sz, mtime)" by (cases f)
  let ?x = "(sz, path, mtime)"
  show ?case
  proof (cases "int (length heap) < n")
    case True
    let ?h1 = "heappush heap ?x"
    have R: "R = {#}" using Cons.prems(3) True by simp
    have h1: "is_heap ?h1" using Cons.prems(1) by (rule is_heap_heappush)
    have m1: "mset ?h1 = add_mset ?x (mset heap)" by (rule mset_heappush)
    have "size (mset ?h1) = Suc (length heap)" by (simp add: m1)
    then have l1: "length ?h1 = Suc (length heap)" by simp
    have le1: "int (length ?h1) \<le> n" using True l1 by simp
    have "\<exists>heap' R'. top_files_loop n files ?h1 = Inr heap' \<and> is_heap heap'
           \<and> mset heap' + R' = mset ?h1 + {#} + mset (map item_of files)
           \<and> int (length heap') \<le> n \<and> (int (length heap') < n \<longrightarrow> R' = {#})
           \<and> (\<forall>r y. r \<in># R' \<longrightarrow> y \<in> set heap' \<longrightarrow> fst r \<le> fst y)"
      by (rule Cons.IH[OF h1 le1]) simp_all
    then obtain heap' R' where run: "top_files_loop n files ?h1 = Inr heap'" and hp: "is_heap heap'"
      and ms: "mset heap' + R' = mset ?h1 + {#} + mset (map item_of files)"
      and rest: "int (length heap') \<le> n" "int (length heap') < n \<longrightarrow> R' = {#}"
        "\<forall>r y. r \<in># R' \<longrightarrow> y \<in> set heap' \<longrightarrow> fst r \<le> fst y"
      by blast
    have step: "top_files_loop n (f # files) heap = top_files_loop n files ?h1"
      using True f by simp
    have ms': "mset heap' + R' = mset heap + R + mset (map item_of (f # files))"
      using ms m1 R f by simp
    from step run have fin: "top_files_loop n (f # files) heap = Inr heap'" by simp
      show ?thesis using fin hp ms' rest by blast
  next
    case False
    then have len: "int (length heap) = n" using Cons.prems(2) by simp
    then have ne: "heap \<noteq> []" using assms(1) by auto
    then obtain s tl where heap: "heap = s # tl" by (cases heap) auto
    have s_in: "s \<in> set heap" and s_hd: "hd heap = s" and s_0: "heap ! 0 = s" using heap by simp_all
    have s_least: "fst s \<le> fst y" if "y \<in> set heap" for y
      using heap_hd_least_size[OF Cons.prems(1) that] s_hd by simp
    show ?thesis
    proof (cases "sz > fst s")
      case True
      obtain h1 where r1: "heapreplace heap ?x = Inr h1" and h1: "is_heap h1"
        and m1: "mset h1 = add_mset ?x (mset heap - {#heap ! 0#})"
        using heapreplace_props[OF Cons.prems(1) ne, of ?x] by blast
      have "0 < length heap" using ne by simp
      then have "size (mset h1) = size (mset heap)" using m1 s_in s_0 by (simp add: size_Diff_singleton)
      then have l1: "length h1 = length heap" by simp
      have le1: "int (length h1) \<le> n" using len l1 by simp
      have set1: "y = ?x \<or> y \<in> set heap" if "y \<in> set h1" for y
      proof -
        have "y \<in># mset h1" using that by simp
        then have "y = ?x \<or> y \<in># mset heap - {#heap ! 0#}" using m1 by simp
        then show ?thesis by (auto dest: in_diffD)
      qed
      have ord1: "fst r \<le> fst y" if r: "r \<in># add_mset s R" and y: "y \<in> set h1" for r y
      proof -
        have a: "fst r \<le> fst s" using r Cons.prems(4)[of r s] s_in by auto
        from set1[OF y] show ?thesis
        proof
          assume "y = ?x"
          then show ?thesis using a True by simp
        next
          assume "y \<in> set heap"
          then have "fst s \<le> fst y" by (rule s_least)
          with a show ?thesis by (rule order_trans)
        qed
      qed
      have "\<exists>heap' R'. top_files_loop n files h1 = Inr heap' \<and> is_heap heap'
           \<and> mset heap' + R' = mset h1 + add_mset s R + mset (map item_of files)
           \<and> int (length heap') \<le> n \<and> (int (length heap') < n \<longrightarrow> R' = {#})
           \<and> (\<forall>r y. r \<in># R' \<longrightarrow> y \<in> set heap' \<longrightarrow> fst r \<le> fst y)"
      proof (rule Cons.IH[OF h1 le1])
        show "add_mset s R = {#}" if "int (length h1) < n" using that len l1 by simp
      next
        fix r y assume "r \<in># add_mset s R" "y \<in> set h1"
        then show "fst r \<le> fst y" by (rule ord1)
      qed
      then obtain heap' R' where run: "top_files_loop n files h1 = Inr heap'" and hp: "is_heap heap'"
        and ms: "mset heap' + R' = mset h1 + add_mset s R + mset (map item_of files)"
        and rest: "int (length heap') \<le> n" "int (length heap') < n \<longrightarrow> R' = {#}"
          "\<forall>r y. r \<in># R' \<longrightarrow> y \<in> set heap' \<longrightarrow> fst r \<le> fst y"
        by blast
      have step: "top_files_loop n (f # files) heap = top_files_loop n files h1"
        using True False f heap r1 by simp
      have "mset h1 + add_mset s R = mset heap + R + {#?x#}"
        using m1 s_in s_0 by simp
      then have ms': "mset heap' + R' = mset heap + R + mset (map item_of (f # files))"
        using ms f by simp
      from step run have fin: "top_files_loop n (f # files) heap = Inr heap'" by simp
      show ?thesis using fin hp ms' rest by blast
    next
      case F2: False
      have ord1: "fst r \<le> fst y" if r: "r \<in># add_mset ?x R" and y: "y \<in> set heap" for r y
      proof -
        have "r = ?x \<or> r \<in># R" using r by simp
        then show ?thesis
        proof
          assume "r = ?x"
          then have "fst r \<le> fst s" using F2 by simp
          moreover have "fst s \<le> fst y" using y by (rule s_least)
          ultimately show ?thesis by (rule order_trans)
        next
          assume "r \<in># R"
          then show ?thesis using y by (rule Cons.prems(4))
        qed
      qed
      have "\<exists>heap' R'. top_files_loop n files heap = Inr heap' \<and> is_heap heap'
           \<and> mset heap' + R' = mset heap + add_mset ?x R + mset (map item_of files)
           \<and> int (length heap') \<le> n \<and> (int (length heap') < n \<longrightarrow> R' = {#})
           \<and> (\<forall>r y. r \<in># R' \<longrightarrow> y \<in> set heap' \<longrightarrow> fst r \<le> fst y)"
      proof (rule Cons.IH[OF Cons.prems(1) Cons.prems(2)])
        show "add_mset ?x R = {#}" if "int (length heap) < n" using that False by simp
      next
        fix r y assume "r \<in># add_mset ?x R" "y \<in> set heap"
        then show "fst r \<le> fst y" by (rule ord1)
      qed
      then obtain heap' R' where run: "top_files_loop n files heap = Inr heap'" and hp: "is_heap heap'"
        and ms: "mset heap' + R' = mset heap + add_mset ?x R + mset (map item_of files)"
        and rest: "int (length heap') \<le> n" "int (length heap') < n \<longrightarrow> R' = {#}"
          "\<forall>r y. r \<in># R' \<longrightarrow> y \<in> set heap' \<longrightarrow> fst r \<le> fst y"
        by blast
      have step: "top_files_loop n (f # files) heap = top_files_loop n files heap"
        using F2 False f heap by simp
      have ms': "mset heap' + R' = mset heap + R + mset (map item_of (f # files))"
        using ms f by simp
      from step run have fin: "top_files_loop n (f # files) heap = Inr heap'" by simp
      show ?thesis using fin hp ms' rest by blast
    qed
  qed
qed

lemma sorted_map_fst:
  "sorted (xs :: ('a::linorder \<times> 'b::linorder) list) \<Longrightarrow> sorted (map fst xs)"
  by (induction xs) (auto dest: fst_mono_prod)

lemma map_fst_sort:
  "map fst (sort (xs :: ('a::linorder \<times> 'b::linorder) list)) = sort (map fst xs)"
proof -
  have "mset (map fst (sort xs)) = mset (map fst xs)" by simp
  moreover have "sorted (map fst (sort xs))" by (rule sorted_map_fst) simp
  ultimately show ?thesis by (rule properties_for_sort[symmetric])
qed

lemma take_rev_sort_split:
  fixes hs xs :: "'a::linorder list"
  assumes "mset hs + R = mset xs"
    and "\<And>r y. r \<in># R \<Longrightarrow> y \<in> set hs \<Longrightarrow> r \<le> y"
    and "length hs \<le> k" "length hs < k \<Longrightarrow> R = {#}"
  shows "take k (rev (sort xs)) = rev (sort hs)"
proof -
  let ?ys = "sorted_list_of_multiset R @ sort hs"
  have "mset ?ys = mset xs" using assms(1) by (simp add: add.commute)
  moreover have "sorted ?ys" using assms(2) by (auto simp: sorted_append)
  ultimately have "sort xs = ?ys" by (rule properties_for_sort)
  then have r: "rev (sort xs) = rev (sort hs) @ rev (sorted_list_of_multiset R)" by simp
  show ?thesis
  proof (cases "length hs < k")
    case True
    then have "R = {#}" by (rule assms(4))
    then show ?thesis using r assms(3) by simp
  next
    case False
    then have "length (rev (sort hs)) = k" using assms(3) by simp
    then show ?thesis using r by simp
  qed
qed

lemma fst_item_of: "fst (item_of f) = size_of f"
  by (cases f) (auto simp: size_of_def)

lemma top_files_of_top_n:
  fixes files :: "(string \<times> int \<times> 't::linorder) list"
  assumes "1 \<le> n"
  shows "\<exists>res. top_files_of files n = Inr res
           \<and> length res = min (nat n) (length files)
           \<and> sorted (rev res)
           \<and> mset res \<subseteq># mset (map item_of files)
           \<and> map fst res = take (nat n) (rev (sort (map size_of files)))"
proof -
  have "\<exists>heap' R'. top_files_loop n files [] = Inr heap' \<and> is_heap heap'
           \<and> mset heap' + R' = mset [] + {#} + mset (map item_of files)
           \<and> int (length heap') \<le> n \<and> (int (length heap') < n \<longrightarrow> R' = {#})
           \<and> (\<forall>r y. r \<in># R' \<longrightarrow> y \<in> set heap' \<longrightarrow> fst r \<le> fst y)"
    by (rule top_files_loop_inv[OF assms is_heap_Nil]) (use assms in simp_all)
  then obtain heap' R' where run: "top_files_loop n files [] = Inr heap'"
    and ms0: "mset heap' + R' = mset [] + {#} + mset (map item_of files)"
    and le: "int (length heap') \<le> n" and small0: "int (length heap') < n \<longrightarrow> R' = {#}"
    and ord0: "\<forall>r y. r \<in># R' \<longrightarrow> y \<in> set heap' \<longrightarrow> fst r \<le> fst y"
    by blast
  have ms: "mset heap' + R' = mset (map item_of files)" using ms0 by simp
  have small: "R' = {#}" if "int (length heap') < n" using small0 that by simp
  have ord: "fst r \<le> fst y" if "r \<in># R'" "y \<in> set heap'" for r y using ord0 that by blast
  let ?res = "rev (sort heap')"
  have res: "top_files_of files n = Inr ?res" using run by (simp add: top_files_of_def)
  have "size (mset heap' + R') = length files" using ms by (metis length_map size_mset)
  then have sz: "length heap' + size R' = length files" by simp
  have len: "length ?res = min (nat n) (length files)"
  proof (cases "int (length heap') < n")
    case True
    then have "R' = {#}" by (rule small)
    then show ?thesis using sz True by simp
  next
    case False
    then have "length heap' = nat n" using le by simp
    then show ?thesis using sz by simp
  qed
  have sub: "mset ?res \<subseteq># mset (map item_of files)"
    using ms by (metis mset_rev mset_sort mset_subset_eq_add_left)
  have ms_fst: "mset (map fst heap') + image_mset fst R' = mset (map size_of files)"
  proof -
    have "image_mset fst (mset heap' + R') = image_mset fst (mset (map item_of files))"
      using ms by simp
    moreover have "image_mset fst (image_mset item_of (mset files)) = image_mset size_of (mset files)"
      by (simp add: multiset.map_comp comp_def fst_item_of)
    ultimately show ?thesis by simp
  qed
  have "take (nat n) (rev (sort (map size_of files))) = rev (sort (map fst heap'))"
  proof (rule take_rev_sort_split[OF ms_fst])
    fix r y assume "r \<in># image_mset fst R'" "y \<in> set (map fst heap')"
    then show "r \<le> y" using ord by auto
  next
    show "length (map fst heap') \<le> nat n" using le by simp
  next
    assume "length (map fst heap') < nat n"
    then have "int (length heap') < n" by simp
    then show "image_mset fst R' = {#}" using small by simp
  qed
  moreover have "map fst ?res = rev (map fst (sort heap'))" by (simp add: rev_map)
  moreover have "rev (map fst (sort heap')) = rev (sort (map fst heap'))" by (simp only: map_fst_sort)
  ultimately have top: "map fst ?res = take (nat n) (rev (sort (map size_of files)))"
    by simp
  have "sorted (rev ?res)" by simp
  with res len sub top show ?thesis by blast
qed

text \<open>
  C1. For every stream of files and every \<open>n \<ge> 0\<close>, \<open>top_files\<close> returns a sequence of
  length at most \<open>n\<close> and at most the number of files, sorted non-increasing by size, whose
  sizes are the \<open>n\<close> largest sizes of the stream. For \<open>n \<ge> 1\<close> this is
  \<open>top_files_of_top_n\<close> above. For \<open>n = 0\<close> the program does not return: with the heap empty,
  \<open>len(heap) < n\<close> is false and \<open>heap[0]\<close> raises \<^verbatim>\<open>IndexError\<close> at the first file.
\<close>

theorem top_files_of_zero_raises:
  "top_files_of [(''/r/a'', 1, 0 :: int)] 0 = Inl IndexError"
  by (simp add: top_files_of_def)

text \<open>A root without visible files, and a root that cannot be opened, give the empty
  sequence for every \<open>n\<close>: the loop body never runs.\<close>

lemma top_files_no_files: "iter_files root = [] \<Longrightarrow> top_files root n = Inr []"
  by (simp add: top_files_def top_files_of_def)

lemma iter_files_unopened: "iter_files (path, None) = []"
  by (simp add: iter_files_def)

lemma top_files_unopened: "top_files (path, None) n = Inr []"
  by (simp add: top_files_no_files iter_files_unopened)

lemma top_files_loop_nonpositive:
  "n \<le> 0 \<Longrightarrow> files \<noteq> [] \<Longrightarrow> top_files_loop n files [] = Inl IndexError"
  by (cases files) auto

text \<open>
  C2. For every root and every \<open>n \<le> 0\<close>, \<open>top_files\<close> returns the empty sequence and does not
  raise, even when the root contains files. The program does the opposite: for \<open>n \<le> 0\<close> and
  a root with at least one visible file it raises \<^verbatim>\<open>IndexError\<close>. (Without visible files, or
  with a root that cannot be opened, it returns the empty sequence: \<open>top_files_no_files\<close>,
  \<open>top_files_unopened\<close>.)
\<close>

theorem top_files_nonpositive_raises:
  "n \<le> 0 \<Longrightarrow> iter_files root \<noteq> [] \<Longrightarrow> top_files root n = Inl IndexError"
  by (simp add: top_files_def top_files_of_def top_files_loop_nonpositive)

theorem top_files_nonpositive_raises_witness:
  "iter_files (''/r'', Some [File ''a'' (Some (1, 0 :: int)) (Some 1)]) = [(''/r/a'', 1, 0)]
   \<and> top_files (''/r'', Some [File ''a'' (Some (1, 0 :: int)) (Some 1)]) (- 1) = Inl IndexError"
  using top_files_nonpositive_raises[of "- 1" "(''/r'', Some [File ''a'' (Some (1, 0 :: int)) (Some 1)])"]
  by (simp add: iter_files_def join_def List.map_filter_def)

lemma top_files_of_sorted_whole:
  "top_files_of files n = Inr res \<Longrightarrow> sorted (rev res)"
  by (auto simp: top_files_of_def split: sum.splits)

lemma prod_le_cases:
  fixes a :: "int \<times> string \<times> 't::linorder"
  assumes "a \<le> b"
  shows "fst a \<le> fst b"
    and "fst a = fst b \<Longrightarrow> fst (snd a) \<le> fst (snd b)"
    and "fst a = fst b \<Longrightarrow> fst (snd a) = fst (snd b) \<Longrightarrow> snd (snd a) \<le> snd (snd b)"
  using assms by (auto simp: less_eq_prod_def)

text \<open>
  C10. Ties are broken deterministically. The final sort compares whole
  \<open>(size, path, mtime)\<close> tuples in reverse, so whenever \<open>top_files\<close> returns, an entry that comes
  later in the result is at most an earlier one as a tuple: its size is at most the earlier
  size; for equal sizes its path is at most the earlier path; for equal sizes and paths its
  time stamp is at most the earlier one. For \<open>n \<ge> 1\<close> the function returns.
\<close>

theorem top_files_tie_order:
  fixes files :: "(string \<times> int \<times> 't::linorder) list"
  shows "(1 \<le> n \<longrightarrow> (\<exists>res. top_files_of files n = Inr res))
    \<and> (\<forall>res i j. top_files_of files n = Inr res \<and> i < j \<and> j < length res \<longrightarrow>
          res ! j \<le> res ! i
          \<and> fst (res ! j) \<le> fst (res ! i)
          \<and> (fst (res ! j) = fst (res ! i) \<longrightarrow>
                fst (snd (res ! j)) \<le> fst (snd (res ! i))
                \<and> (fst (snd (res ! j)) = fst (snd (res ! i)) \<longrightarrow>
                      snd (snd (res ! j)) \<le> snd (snd (res ! i)))))"
proof (intro conjI allI impI)
  assume "1 \<le> n"
  then show "\<exists>res. top_files_of files n = Inr res"
    using top_files_of_top_n[of n files] by blast
next
  fix res i j
  assume a: "top_files_of files n = Inr res \<and> i < j \<and> j < length res"
  then have "sorted (rev res)" using top_files_of_sorted_whole by blast
  then have sw: "sorted_wrt (\<lambda>x y. y \<le> x) res" by (simp add: sorted_wrt_rev)
  have ij: "i < j" "j < length res" using a by simp_all
  have le: "res ! j \<le> res ! i" by (rule sorted_wrt_nth_less[OF sw ij])
  show "res ! j \<le> res ! i" by (rule le)
  show "fst (res ! j) \<le> fst (res ! i)" by (rule prod_le_cases(1)[OF le])
  show "fst (snd (res ! j)) \<le> fst (snd (res ! i))" if "fst (res ! j) = fst (res ! i)"
    using that by (rule prod_le_cases(2)[OF le])
  show "snd (snd (res ! j)) \<le> snd (snd (res ! i))"
    if "fst (res ! j) = fst (res ! i)" "fst (snd (res ! j)) = fst (snd (res ! i))"
    using that by (rule prod_le_cases(3)[OF le])
qed

theorem top_files_tie_order_witness:
  "top_files_of [(''/r/a'', 7, 1 :: int), (''/r/c'', 7, 2), (''/r/b'', 7, 3), (''/r/d'', 9, 0)] 3
     = Inr [(9, ''/r/d'', 0), (7, ''/r/c'', 2), (7, ''/r/b'', 3)]
   \<and> (7 :: int, ''/r/b'', 3 :: int) \<le> (7, ''/r/c'', 2)"
proof -
  let ?files = "[(''/r/a'', 7, 1 :: int), (''/r/c'', 7, 2), (''/r/b'', 7, 3), (''/r/d'', 9, 0)]"
  let ?res = "[(9 :: int, ''/r/d'', 0 :: int), (7, ''/r/c'', 2), (7, ''/r/b'', 3)]"
  have r: "top_files_of ?files 3 = Inr ?res" by code_simp
  have pre: "top_files_of ?files 3 = Inr ?res \<and> (1::nat) < 2 \<and> 2 < length ?res"
    using r by simp
  have "?res ! 2 \<le> ?res ! 1"
    using conjunct2[OF top_files_tie_order[of 3 ?files], rule_format, OF pre] by (rule conjunct1)
  then show ?thesis using r by simp
qed

section \<open>The Top-N aggregation of folders\<close>

text \<open>\<open>folder_size\<close>, a fold over the walk, is the recursive sum over the tree.\<close>

lemma folder_size_alt: "folder_size folder listing = fold add_sizes (walk folder listing) 0"
  by (simp add: folder_size_def add_sizes_def)

lemma sizes_beneath_split: "sizes_beneath es = files_size es + subdirs_size es"
proof (induction es)
  case Nil then show ?case by simp
next
  case (Cons e es)
  then show ?case
  proof (cases e)
    case (Dir name mt l)
    then show ?thesis using Cons by (cases l) (simp_all add: listing_size_def)
  qed (simp_all split: option.splits)
qed

lemma fold_getsize_nondirs:
  "fold (\<lambda>f total. case getsize f of Some sz \<Rightarrow> total + sz | None \<Rightarrow> total)
        (filter (\<lambda>e. \<not> is_dir_entry e) es) acc = acc + files_size es"
proof (induction es arbitrary: acc)
  case Nil then show ?case by simp
next
  case (Cons e es)
  show ?case by (cases e) (simp_all add: Cons split: option.splits)
qed

lemma fold_walk:
  fixes listing :: "'t fs_entry list option" and es :: "'t fs_entry list"
  shows "fold add_sizes (walk d listing) acc = acc + listing_size listing"
    and "fold add_sizes (walk_subdirs d es) acc = acc + subdirs_size es"
proof (induction d listing and d es arbitrary: acc and acc rule: walk_walk_subdirs.induct)
  case (1 dirpath)
  then show ?case by (simp add: listing_size_def)
next
  case (2 dirpath es)
  have "fold add_sizes (walk dirpath (Some es)) acc
        = fold add_sizes (walk_subdirs dirpath es) (acc + files_size es)"
    by (simp add: add_sizes_def fold_getsize_nondirs)
  also have "\<dots> = acc + files_size es + subdirs_size es" by (rule "2.IH")
  finally show ?case by (simp add: listing_size_def sizes_beneath_split)
next
  case (3 dirpath)
  then show ?case by simp
next
  case (4 dirpath uu uv uw es)
  then show ?case by simp
next
  case (5 dirpath ux es)
  then show ?case by simp
next
  case (6 dirpath name uy listing es)
  then show ?case by simp
qed

lemma folder_size_eq: "folder_size folder listing = listing_size listing"
  by (simp add: folder_size_alt fold_walk)

lemma folder_size_beneath: "folder_size folder listing = size_beneath (Dir name mt listing)"
  by (cases listing) (simp_all add: folder_size_eq listing_size_def)

lemma set_slice_to: "set (slice_to xs n) \<subseteq> set xs"
  by (auto simp: slice_to_def dest: in_set_takeD)

lemma length_slice_to: "length (slice_to xs n) \<le> length xs"
  by (simp add: slice_to_def)

lemma length_slice_to_nonneg: "0 \<le> n \<Longrightarrow> int (length (slice_to xs n)) \<le> n"
  by (simp add: slice_to_def)

lemma sorted_rev_take: "sorted (rev xs) \<Longrightarrow> sorted (rev (take k xs))"
proof -
  assume "sorted (rev xs)"
  then have "sorted (drop (length xs - k) (rev xs))" by (rule sorted_wrt_drop)
  then show ?thesis by (simp add: rev_take)
qed

lemma sorted_rev_slice_to: "sorted (rev xs) \<Longrightarrow> sorted (rev (slice_to xs n))"
  by (simp add: slice_to_def sorted_rev_take)

lemma folder_entry_Some:
  "folder_entry root e = Some r \<Longrightarrow>
     \<exists>name mt listing. e = Dir name (Some mt) listing
        \<and> r = (size_beneath (Dir name (Some mt) listing), join root name, mt)"
  by (cases "(root, e)" rule: folder_entry.cases) (auto simp: folder_size_beneath)

lemma folder_entry_is_directory: "folder_entry root e = Some r \<Longrightarrow> is_directory e"
  by (cases "(root, e)" rule: folder_entry.cases) auto

lemma length_map_filter_le:
  "(\<And>x y. f x = Some y \<Longrightarrow> P x) \<Longrightarrow> length (List.map_filter f xs) \<le> length (filter P xs)"
  by (induction xs) (auto simp: List.map_filter_def)

text \<open>
  C6. \<open>top_folders\<close> ranks only the immediate child directories of the root: every record
  it returns is the record of a directory entry of the root itself, with the path of that
  entry and with the sum of the sizes of all files anywhere beneath it as its size
  (subtrees that cannot be read count zero); and it returns at most one record per such
  entry, so a file deeper in the tree is counted into its ancestor at depth one and has
  no record of its own.
\<close>

theorem top_folders_immediate_children:
  fixes root :: "'t::linorder root"
  shows "(\<forall>r \<in> set (top_folders root n). \<exists>name mt listing.
            Dir name (Some mt) listing \<in> set (entries_of root)
            \<and> r = (size_beneath (Dir name (Some mt) listing), join (fst root) name, mt))
         \<and> length (top_folders root n) \<le> length (filter is_directory (entries_of root))"
proof (cases "snd root")
  case None
  then show ?thesis by (simp add: top_folders_def)
next
  case (Some es)
  let ?all = "List.map_filter (folder_entry (fst root)) es"
  have tf: "top_folders root n = slice_to (rev (sort ?all)) n"
    using Some by (simp add: top_folders_def)
  have sub: "set (top_folders root n) \<subseteq> set ?all"
    using set_slice_to[of "rev (sort ?all)" n] by (simp add: tf)
  have A: "\<exists>name mt listing. Dir name (Some mt) listing \<in> set (entries_of root)
            \<and> r = (size_beneath (Dir name (Some mt) listing), join (fst root) name, mt)"
    if "r \<in> set (top_folders root n)" for r
  proof -
    from that sub have "r \<in> set ?all" by blast
    then obtain e where e: "e \<in> set es" "folder_entry (fst root) e = Some r"
      by (auto simp: List.map_filter_def)
    from folder_entry_Some[OF e(2)] e(1) Some show ?thesis
      by (auto simp: entries_of_def)
  qed
  have "length (top_folders root n) \<le> length ?all"
    using length_slice_to[of "rev (sort ?all)" n] by (simp add: tf)
  also have "\<dots> \<le> length (filter is_directory es)"
    by (rule length_map_filter_le) (rule folder_entry_is_directory)
  finally have B: "length (top_folders root n) \<le> length (filter is_directory (entries_of root))"
    using Some by (simp add: entries_of_def)
  from A B show ?thesis by blast
qed

theorem top_folders_immediate_children_witness:
  "top_folders example_root 5 = [(27, ''/r/d'', 3), (0, ''/r/z'', 1)]
   \<and> length (top_folders example_root 5) \<le> 2"
proof -
  have ev: "top_folders example_root 5 = [(27, ''/r/d'', 3), (0, ''/r/z'', 1)]"
    by code_simp
  have "length (filter is_directory (entries_of example_root)) = 2"
    by (simp add: entries_of_def example_root_def)
  then have "length (top_folders example_root 5) \<le> 2"
    using conjunct2[OF top_folders_immediate_children[of example_root 5]] by simp
  with ev show ?thesis by simp
qed

text \<open>
  C7. For every root and every integer \<open>n\<close>, \<open>top_folders\<close> returns a sequence sorted
  largest first of length at most \<open>n\<close>; a root that cannot be opened gives the empty
  sequence. The bound on the length fails for negative \<open>n\<close>: the slice \<open>entries[:n]\<close> then
  keeps all but the last \<open>-n\<close> entries.
\<close>

theorem top_folders_negative_counterexample:
  "top_folders example_root (- 1) = [(27, ''/r/d'', 3)]
   \<and> \<not> int (length (top_folders example_root (- 1))) \<le> - 1"
  by code_simp

text \<open>
  C7, amended. For every root and every integer \<open>n\<close> the result is sorted largest first
  (as whole tuples, hence by size); for \<open>n \<ge> 0\<close> its length is at most \<open>n\<close>; and a root that
  cannot be opened gives the empty sequence.
\<close>

theorem top_folders_sorted_bounded:
  fixes root :: "'t::linorder root"
  shows "sorted (rev (top_folders root n))
         \<and> sorted (rev (map fst (top_folders root n)))
         \<and> (0 \<le> n \<longrightarrow> int (length (top_folders root n)) \<le> n)
         \<and> (snd root = None \<longrightarrow> top_folders root n = [])"
proof -
  have s: "sorted (rev (top_folders root n))"
    by (cases "snd root") (simp_all add: top_folders_def sorted_rev_slice_to)
  then have "sorted (map fst (rev (top_folders root n)))" by (rule sorted_map_fst)
  then have s2: "sorted (rev (map fst (top_folders root n)))" by (simp add: rev_map)
  have l: "int (length (top_folders root n)) \<le> n" if "0 \<le> n"
    using that by (cases "snd root") (simp_all add: top_folders_def length_slice_to_nonneg)
  have e: "top_folders root n = []" if "snd root = None"
    using that by (simp add: top_folders_def)
  from s s2 l e show ?thesis by blast
qed

theorem top_folders_sorted_bounded_witness:
  "top_folders example_root 1 = [(27, ''/r/d'', 3)]
   \<and> int (length (top_folders example_root 1)) \<le> 1
   \<and> top_folders (''/r'', None :: int fs_entry list option) 1 = []"
proof -
  have ev: "top_folders example_root 1 = [(27, ''/r/d'', 3)]" by code_simp
  have "int (length (top_folders example_root 1)) \<le> 1"
    using top_folders_sorted_bounded[of example_root 1] by simp
  moreover have "top_folders (''/r'', None :: int fs_entry list option) 1 = []"
    using top_folders_sorted_bounded[of "(''/r'', None :: int fs_entry list option)" 1] by simp
  ultimately show ?thesis using ev by simp
qed

section \<open>Disk enumeration\<close>

text \<open>The disks found by the filter loop: one for every eligible mount outside \<open>seen\<close> whose
  capacity can be read, each name once.\<close>

lemma scan_mounts_set:
  "set (scan_mounts h ms seen)
     = {d. \<exists>m \<in> set ms - seen. eligible h m \<and> disk_of h m = Some d}"
proof (induction ms arbitrary: seen)
  case Nil
  then show ?case by simp
next
  case (Cons mnt rest)
  show ?case
  proof (cases "eligible h mnt \<and> mnt \<notin> seen")
    case False
    then have "scan_mounts h (mnt # rest) seen = scan_mounts h rest seen"
      by (auto simp: eligible_def)
    then show ?thesis using False Cons[of seen] by auto
  next
    case True
    show ?thesis
    proof (cases "disk_usage h mnt")
      case None
      then have "scan_mounts h (mnt # rest) seen = scan_mounts h rest (insert mnt seen)"
        using True by (auto simp: eligible_def)
      then show ?thesis using None Cons[of "insert mnt seen"] by (auto simp: disk_of_def)
    next
      case (Some u)
      obtain tot used free where u: "u = (tot, used, free)" by (cases u)
      have "scan_mounts h (mnt # rest) seen
            = (mnt, mnt, tot, free) # scan_mounts h rest (insert mnt seen)"
        using True Some u by (auto simp: eligible_def)
      moreover have "disk_of h mnt = Some (mnt, mnt, tot, free)"
        using Some u by (simp add: disk_of_def)
      ultimately show ?thesis using True Cons[of "insert mnt seen"] by auto
    qed
  qed
qed

lemma disk_of_name: "disk_of h m = Some d \<Longrightarrow> fst d = m \<and> fst (snd d) = m"
  by (auto simp: disk_of_def split: option.splits)

lemma scan_mounts_names_fresh: "fst ` set (scan_mounts h ms seen) \<inter> seen = {}"
  by (auto simp: scan_mounts_set dest!: disk_of_name)

lemma scan_mounts_distinct: "distinct (map fst (scan_mounts h ms seen))"
proof (induction ms arbitrary: seen)
  case Nil
  then show ?case by simp
next
  case (Cons mnt rest)
  have fresh: "mnt \<notin> fst ` set (scan_mounts h rest (insert mnt seen))"
    using scan_mounts_names_fresh[of h rest "insert mnt seen"] by auto
  show ?case using Cons fresh by (auto split: option.splits)
qed

lemma scan_mounts_paths: "map (fst \<circ> snd) (scan_mounts h ms seen) = map fst (scan_mounts h ms seen)"
proof -
  have "\<forall>d \<in> set (scan_mounts h ms seen). (fst \<circ> snd) d = fst d"
    by (auto simp: scan_mounts_set dest!: disk_of_name)
  then show ?thesis by (simp only: map_eq_conv)
qed

lemma sort_key_fst_same_set:
  fixes xs ys :: "('a::linorder \<times> 'b) list"
  assumes "set xs = set ys" "distinct (map fst xs)" "distinct (map fst ys)"
  shows "sort_key fst xs = sort_key fst ys"
proof (rule sort_key_inj_key_eq)
  have "distinct xs" "distinct ys" using assms(2,3) by (simp_all add: distinct_map)
  then show "mset xs = mset (sort_key fst ys)"
    using assms(1) by (simp add: set_eq_iff_mset_eq_distinct)
  show "inj_on fst (set xs)" using assms(2) by (simp add: distinct_map)
  show "sorted (map fst (sort_key fst ys))" by simp
qed

text \<open>
  C8. In the mount-table strategy devices are deduplicated by resolved path: of two entries
  that resolve to the same path at most one is reported. The program compares the mount
  paths as they are written (\<open>mnt in seen\<close>) and resolves nothing: \<^verbatim>\<open>/data\<close> and \<^verbatim>\<open>/data/\<close> are
  both reported.
\<close>

theorem enumerate_disks_resolved_counterexample:
  "read_mounts trailing_slash_host = [''/data'', ''/data/'']
   \<and> resolve_path ''/data/'' = resolve_path ''/data''
   \<and> enumerate_disks trailing_slash_host
        = [(''/data'', ''/data'', 100, 60), (''/data/'', ''/data/'', 100, 60)]
   \<and> \<not> distinct (map (resolve_path \<circ> fst \<circ> snd) (enumerate_disks trailing_slash_host))"
  by code_simp

text \<open>
  C8, amended. In the mount-table strategy devices are deduplicated by the mount path as
  written: no two reported disks have the same name, and the path of a disk is its name; the
  reported disks are exactly those of the listed mounts that are eligible and whose capacity
  query succeeds, so a mount whose query fails is skipped and the enumeration continues.
\<close>

theorem enumerate_disks_dedup_by_mount_string:
  assumes "\<not> is_windows h"
  shows "distinct (map fst (enumerate_disks h))
       \<and> map (fst \<circ> snd) (enumerate_disks h) = map fst (enumerate_disks h)
       \<and> set (enumerate_disks h)
           = {d. \<exists>m \<in> set (read_mounts h). eligible h m \<and> disk_of h m = Some d}"
proof -
  let ?ds = "scan_mounts h (read_mounts h) {}"
  have e: "enumerate_disks h = sort_key fst ?ds" using assms by (simp add: enumerate_disks_def)
  have "mset (map fst (enumerate_disks h)) = mset (map fst ?ds)" by (simp add: e)
  then have d: "distinct (map fst (enumerate_disks h))"
    using scan_mounts_distinct[of h "read_mounts h" "{}"] by (metis mset_eq_imp_distinct_iff)
  have s: "set (enumerate_disks h) = {d. \<exists>m \<in> set (read_mounts h). eligible h m \<and> disk_of h m = Some d}"
    by (simp add: e scan_mounts_set)
  have "\<forall>d \<in> set (enumerate_disks h). (fst \<circ> snd) d = fst d"
    by (auto simp: s dest!: disk_of_name)
  then have p: "map (fst \<circ> snd) (enumerate_disks h) = map fst (enumerate_disks h)"
    by (simp only: map_eq_conv)
  from d p s show ?thesis by blast
qed

theorem enumerate_disks_dedup_by_mount_string_witness:
  "read_mounts mounts_host = [''/data'', ''/proc'', ''/boot'', ''/data'', ''/'']
   \<and> enumerate_disks mounts_host = [(''/'', ''/'', 100, 60), (''/data'', ''/data'', 100, 60)]
   \<and> distinct (map fst (enumerate_disks mounts_host))"
proof -
  have w: "\<not> is_windows mounts_host" by (simp add: mounts_host_def)
  have "read_mounts mounts_host = [''/data'', ''/proc'', ''/boot'', ''/data'', ''/'']" by code_simp
  moreover have "enumerate_disks mounts_host = [(''/'', ''/'', 100, 60), (''/data'', ''/data'', 100, 60)]"
    by code_simp
  moreover have "distinct (map fst (enumerate_disks mounts_host))"
    using enumerate_disks_dedup_by_mount_string[OF w] by (rule conjunct1)
  ultimately show ?thesis by simp
qed

text \<open>
  C9. The sequence returned by \<open>enumerate_disks\<close> is sorted ascending by device name; and the
  indices are determined by the devices found: two hosts of the mount-table strategy that
  agree on directories and capacities and list the same set of mounts, in any order and
  with any repetitions, give the same sequence.
\<close>

theorem enumerate_disks_sorted_by_name:
  "sorted (map fst (enumerate_disks h))
   \<and> (\<forall>h'. \<not> is_windows h \<and> \<not> is_windows h' \<and> isdir h' = isdir h \<and> disk_usage h' = disk_usage h
            \<and> set (read_mounts h') = set (read_mounts h)
          \<longrightarrow> enumerate_disks h' = enumerate_disks h)"
proof (intro conjI allI impI)
  show "sorted (map fst (enumerate_disks h))" by (simp add: enumerate_disks_def)
next
  fix h'
  assume a: "\<not> is_windows h \<and> \<not> is_windows h' \<and> isdir h' = isdir h \<and> disk_usage h' = disk_usage h
            \<and> set (read_mounts h') = set (read_mounts h)"
  have el: "eligible h' = eligible h" using a by (auto simp: eligible_def fun_eq_iff)
  have di: "disk_of h' = disk_of h" using a by (auto simp: disk_of_def fun_eq_iff)
  have "set (scan_mounts h' (read_mounts h') {}) = set (scan_mounts h (read_mounts h) {})"
    using a by (simp add: scan_mounts_set el di)
  then have "sort_key fst (scan_mounts h' (read_mounts h') {}) = sort_key fst (scan_mounts h (read_mounts h) {})"
    by (rule sort_key_fst_same_set) (rule scan_mounts_distinct)+
  then show "enumerate_disks h' = enumerate_disks h" using a by (simp add: enumerate_disks_def)
qed

theorem enumerate_disks_sorted_by_name_witness:
  "enumerate_disks mounts_host = [(''/'', ''/'', 100, 60), (''/data'', ''/data'', 100, 60)]
   \<and> read_mounts reordered_host = [''/'', ''/data'', ''/boot'', ''/proc'', ''/data'']
   \<and> enumerate_disks reordered_host = enumerate_disks mounts_host
   \<and> sorted (map fst (enumerate_disks mounts_host))"
proof -
  have r1: "read_mounts mounts_host = [''/data'', ''/proc'', ''/boot'', ''/data'', ''/'']" by code_simp
  have r2: "read_mounts reordered_host = [''/'', ''/data'', ''/boot'', ''/proc'', ''/data'']" by code_simp
  have ev: "enumerate_disks mounts_host = [(''/'', ''/'', 100, 60), (''/data'', ''/data'', 100, 60)]"
    by code_simp
  have pre: "\<not> is_windows mounts_host \<and> \<not> is_windows reordered_host
             \<and> isdir reordered_host = isdir mounts_host
             \<and> disk_usage reordered_host = disk_usage mounts_host
             \<and> set (read_mounts reordered_host) = set (read_mounts mounts_host)"
    unfolding r1 r2 by (auto simp: reordered_host_def mounts_host_def)
  have "enumerate_disks reordered_host = enumerate_disks mounts_host"
    using conjunct2[OF enumerate_disks_sorted_by_name[of mounts_host], rule_format, OF pre] .
  moreover have "sorted (map fst (enumerate_disks mounts_host))"
    using enumerate_disks_sorted_by_name[of mounts_host] by (rule conjunct1)
  ultimately show ?thesis using r2 ev by simp
qed

section \<open>Selection parsing\<close>
































text \<open>
  C3. For every input string and every \<open>max_idx\<close>, \<open>parse_selection\<close> never raises: every
  malformed token is dropped. The program guards \<^verbatim>\<open>int(token)\<close> by \<^verbatim>\<open>token.isdigit()\<close>, which
  also holds for the superscript digits; \<^verbatim>\<open>int\<close> rejects them, so the token \<open>\<twosuperior>\<close> (code point
  0xB2) raises \<^verbatim>\<open>ValueError\<close>. (On a string without superscript digits the function returns:
  \<open>parse_selection_plain\<close>.)
\<close>

theorem parse_selection_superscript_raises:
  "parse_selection [CHR 0xB2] 5 = Inl ValueError"
  by code_simp



subsection \<open>The test vector\<close>

text \<open>
  C4. \<open>parse_selection\<close> satisfies the test vector of the specification:
  \<^verbatim>\<open>parse("all", 5) = [1,2,3,4,5]\<close>, \<^verbatim>\<open>parse("1,3,5", 5) = [1,3,5]\<close>,
  \<^verbatim>\<open>parse("1 - 4", 10) = [1,2,3,4]\<close>, \<^verbatim>\<open>parse("1-3, 5, 7-8", 10) = [1,2,3,5,7,8]\<close>,
  \<^verbatim>\<open>parse("0,99", 5) = []\<close> and \<^verbatim>\<open>parse("", 5) = []\<close>; each call returns normally.
\<close>

theorem parse_selection_test_vector:
  "parse_selection ''all'' 5 = Inr [1, 2, 3, 4, 5]
   \<and> parse_selection ''1,3,5'' 5 = Inr [1, 3, 5]
   \<and> parse_selection ''1 - 4'' 10 = Inr [1, 2, 3, 4]
   \<and> parse_selection ''1-3, 5, 7-8'' 10 = Inr [1, 2, 3, 5, 7, 8]
   \<and> parse_selection ''0,99'' 5 = Inr []
   \<and> parse_selection '''' 5 = Inr []"
  by code_simp

end
